theory Spec2Isabelle
  imports Main "HOL-Library.Char_ord" "HOL-Library.List_Lexorder" "HOL-Library.Multiset"
begin

section \<open>Data model of find\_clones.py\<close>

text \<open>
  Python strings are modelled as \<open>string\<close> (lists of 8-bit characters, ordered
  lexicographically by character code, which is how SQLite's default collation and
  Python compare the paths this program handles). The two dataclasses are records.
\<close>

record Duplicate =
  content_hash :: string
  files :: "string list"

record DeletionEntry =
  duplicate :: Duplicate
  to_keep :: string

text \<open>
  The property \<open>DeletionEntry.to_delete\<close> is a generator: it walks
  \<open>self.duplicate.files\<close> and yields every filename different from \<open>self.to_keep\<close>.
  The model returns the list of the yielded values.
\<close>

fun to_delete_loop :: "string \<Rightarrow> string list \<Rightarrow> string list" where
  "to_delete_loop keep [] = []"
| "to_delete_loop keep (filename # rest) =
     (if filename \<noteq> keep then filename # to_delete_loop keep rest
      else to_delete_loop keep rest)"

definition to_delete :: "DeletionEntry \<Rightarrow> string list" where
  "to_delete entry = to_delete_loop (to_keep entry) (files (duplicate entry))"

text \<open>Class \<open>Session\<close>: a session directory and the two paths derived from it.\<close>

datatype Session = Session (session_dir: string)

definition db :: "Session \<Rightarrow> string" where
  "db s = session_dir s @ ''/hashes.db''"

definition queue_file :: "Session \<Rightarrow> string" where
  "queue_file s = session_dir s @ ''/deletion_queue.json''"

section \<open>Extension classification\<close>

text \<open>
  \<open>str.lower\<close> restricted to the characters that matter for the allow-list: the ASCII
  capitals are mapped to their small letters, every other character is left alone.
\<close>

definition lower_char :: "char \<Rightarrow> char" where
  "lower_char c =
     (case map_of (zip ''ABCDEFGHIJKLMNOPQRSTUVWXYZ'' ''abcdefghijklmnopqrstuvwxyz'') c of
        Some l \<Rightarrow> l
      | None \<Rightarrow> c)"

definition lower :: "string \<Rightarrow> string" where
  "lower s = map lower_char s"

text \<open>
  \<open>s.rsplit(sep, 1)\<close> for a one-character separator: a string without the separator
  comes back whole, as a one-element list; otherwise the string is cut at the last
  occurrence of the separator.
\<close>

definition rsplit1 :: "char \<Rightarrow> string \<Rightarrow> string list" where
  "rsplit1 sep s =
     (if sep \<in> set s
      then [rev (tl (dropWhile (\<lambda>c. c \<noteq> sep) (rev s))),
            rev (takeWhile (\<lambda>c. c \<noteq> sep) (rev s))]
      else [s])"

definition supported_extensions :: "string list" where
  "supported_extensions = [''png'', ''jpg'', ''jpeg'', ''tiff'', ''bmp'', ''gif'']"

text \<open>
  \<open>Storage._is_supported\<close>:
  \<^verbatim>\<open>filename.rsplit(".", 1)[-1].lower() in ("png", "jpg", "jpeg", "tiff", "bmp", "gif")\<close>.
  The list returned by \<open>rsplit\<close> is never empty, so \<open>[-1]\<close> is its last element.
\<close>

definition extension :: "string \<Rightarrow> string" where
  "extension filename = lower (last (rsplit1 CHR ''.'' filename))"

definition is_supported :: "string \<Rightarrow> bool" where
  "is_supported filename \<longleftrightarrow> extension filename \<in> set supported_extensions"

section \<open>The world outside the process\<close>

text \<open>
  Exceptions are values. \<open>OSError\<close> stands for every failure of \<open>open\<close>, \<open>read\<close> or
  \<open>os.unlink\<close> (FileNotFoundError, PermissionError, ...), \<open>OperationalError\<close> and
  \<open>DatabaseError\<close> are sqlite3's, \<open>UnicodeEncodeError\<close> is raised when sqlite3 binds a
  string that has no UTF-8 encoding, \<open>JSONDecodeError\<close> is \<open>json.load\<close>'s, \<open>ValueError\<close>
  is \<open>list.remove\<close>'s, and \<open>SchemaError\<close> stands for what \<open>from_dict\<close> and the
  iteration in \<open>DeletionQueue.load\<close> do with a document that is not of the persisted
  shape.
\<close>

datatype error =
  OSError | OperationalError | DatabaseError | UnicodeEncodeError | JSONDecodeError
| SchemaError | ValueError

text \<open>
  A path is the byte string the file system holds. \<open>os.walk\<close> decodes it as UTF-8 and
  turns every byte that is not part of a well-formed sequence into a lone surrogate;
  \<open>open\<close>, \<open>os.path.exists\<close> and \<open>os.unlink\<close> take such a string back, but sqlite3
  cannot encode it when it binds it as a parameter. So a path can be bound exactly
  when its bytes are well-formed UTF-8: one byte below 128, or a lead byte followed
  by the continuation bytes its range asks for (no overlong form, no surrogate, no
  code point beyond U+10FFFF).
\<close>

definition between :: "nat \<Rightarrow> char \<Rightarrow> nat \<Rightarrow> bool" where
  "between lo b hi \<longleftrightarrow> lo \<le> of_char b \<and> of_char b \<le> hi"

definition continuation :: "char \<Rightarrow> bool" where
  "continuation b \<longleftrightarrow> between 128 b 191"

fun encodable :: "string \<Rightarrow> bool" where
  "encodable [] = True"
| "encodable (b0 # bs) =
     (if \<not> digit7 b0 then encodable bs
      else if between 194 b0 223 then
        (case bs of b1 # r \<Rightarrow> continuation b1 \<and> encodable r | _ \<Rightarrow> False)
      else if between 224 b0 239 then
        (case bs of
           b1 # b2 # r \<Rightarrow>
             (if of_char b0 = (224::nat) then between 160 b1 191
              else if of_char b0 = (237::nat) then between 128 b1 159
              else continuation b1)
             \<and> continuation b2 \<and> encodable r
         | _ \<Rightarrow> False)
      else if between 240 b0 244 then
        (case bs of
           b1 # b2 # b3 # r \<Rightarrow>
             (if of_char b0 = (240::nat) then between 144 b1 191
              else if of_char b0 = (244::nat) then between 128 b1 143
              else continuation b1)
             \<and> continuation b2 \<and> continuation b3 \<and> encodable r
         | _ \<Rightarrow> False)
      else False)"

text \<open>
  A file of the swept tree: its bytes, whether it can be opened and read, and whether
  \<open>os.unlink\<close> on it succeeds.
\<close>

record fnode =
  content :: string
  readable :: bool
  removable :: bool

text \<open>
  The file \<open>hashes.db\<close> of a session: not an SQLite database, a database without the
  table \<open>hashes\<close>, or the table with its rows \<open>(filename, hash)\<close> in insertion order.
\<close>

type_synonym row = "string \<times> string"

datatype db_file = Corrupt | NoTable | Hashes "row list"

text \<open>
  The world holds the files of the swept trees, the database files and the queue
  documents, each by path. The three are kept apart: the model assumes that no swept
  or queued path is a session's own \<open>hashes.db\<close> or \<open>deletion_queue.json\<close>, and that
  session directories exist and are writable (ui.py makes them with
  \<open>tempfile.mkdtemp\<close> and \<open>shutil.copytree\<close>). The text of a queue document has the
  abstract type \<open>'txt\<close>; \<open>json.dump\<close> and \<open>json.load\<close> are parameters of the operations
  that use them.
\<close>

record 'txt world =
  disk :: "string \<rightharpoonup> fnode"
  databases :: "string \<rightharpoonup> db_file"
  documents :: "string \<rightharpoonup> 'txt"

text \<open>
  \<open>hashlib.sha256()\<close> is a parameter: the fresh hash object, \<open>update\<close> and \<open>hexdigest\<close>.
\<close>

record 'h hasher =
  h_new :: 'h
  h_update :: "'h \<Rightarrow> string \<Rightarrow> 'h"
  h_hexdigest :: "'h \<Rightarrow> string"

section \<open>Storage: the content index\<close>

text \<open>
  \<open>iter(lambda: file.read(4096), b"")\<close>: the successive chunks of at most \<open>n\<close> bytes, up
  to the first empty one.
\<close>

function read_chunks :: "nat \<Rightarrow> string \<Rightarrow> string list" where
  "read_chunks n bytes =
     (if n = 0 \<or> bytes = [] then [] else take n bytes # read_chunks n (drop n bytes))"
  by pat_completeness auto
termination
  by (relation "measure (\<lambda>(n, bytes). length bytes)") auto

text \<open>The loop over the chunks and the final \<open>hexdigest\<close>.\<close>

definition digest :: "'h hasher \<Rightarrow> string \<Rightarrow> string" where
  "digest hs bytes =
     h_hexdigest hs (fold (\<lambda>chunk h. h_update hs h chunk) (read_chunks 4096 bytes) (h_new hs))"

text \<open>
  \<open>Storage._hash_file\<close>: \<open>open(filename, "rb")\<close> and the reads raise for a file that is
  missing or cannot be read.
\<close>

definition hash_file :: "'h hasher \<Rightarrow> (string \<rightharpoonup> fnode) \<Rightarrow> string \<Rightarrow> error + string" where
  "hash_file hs d filename =
     (case d filename of
        None \<Rightarrow> Inl OSError
      | Some node \<Rightarrow>
          if readable node then Inr (digest hs (content node)) else Inl OSError)"

text \<open>
  \<open>sqlite3.connect\<close> creates the database file when there is none; a statement on the
  table \<open>hashes\<close> needs the table; \<open>commit\<close> makes the new contents durable.
\<close>

definition connect :: "Session \<Rightarrow> 'txt world \<Rightarrow> db_file" where
  "connect s w = (case databases w (db s) of None \<Rightarrow> NoTable | Some f \<Rightarrow> f)"

fun hashes_table :: "db_file \<Rightarrow> error + row list" where
  "hashes_table Corrupt = Inl DatabaseError"
| "hashes_table NoTable = Inl OperationalError"
| "hashes_table (Hashes rows) = Inr rows"

definition commit :: "Session \<Rightarrow> db_file \<Rightarrow> 'txt world \<Rightarrow> 'txt world" where
  "commit s f w = w\<lparr>databases := (databases w)(db s \<mapsto> f)\<rparr>"

text \<open>
  What a sweep has stored when an exception ends it matters, so the operations of the
  sweep (\<open>reset\<close>, \<open>store_file\<close>, the loops of \<open>analyze_dir\<close>) answer an exception
  together with the world at the raise.

  \<open>Storage.reset\<close>: unlink the database file if it exists, then connect and run
  \<^verbatim>\<open>CREATE TABLE IF NOT EXISTS hashes (filename TEXT, hash TEXT)\<close>.
\<close>

definition reset :: "Session \<Rightarrow> 'txt world \<Rightarrow> (error \<times> 'txt world) + 'txt world" where
  "reset s w =
     (let w1 = (if databases w (db s) \<noteq> None
                then w\<lparr>databases := (databases w)(db s := None)\<rparr> else w)
      in case connect s w1 of
           Corrupt \<Rightarrow> Inl (DatabaseError, w1)
         | NoTable \<Rightarrow> Inr (commit s (Hashes []) w1)
         | Hashes rows \<Rightarrow> Inr (commit s (Hashes rows) w1))"

text \<open>
  \<open>Storage.store_file\<close>: return at once for an unsupported name; otherwise hash the
  file, connect (which leaves a database file) and run
  \<^verbatim>\<open>INSERT INTO hashes VALUES (?, ?)\<close>: the statement is prepared, which needs the
  table, and then the two parameters are bound, which needs the filename to have a
  UTF-8 encoding (the digest is a string of hexadecimal digits and always has one).
\<close>

definition store_file ::
  "'h hasher \<Rightarrow> Session \<Rightarrow> string \<Rightarrow> 'txt world \<Rightarrow> (error \<times> 'txt world) + 'txt world" where
  "store_file hs s filename w =
     (if \<not> is_supported filename then Inr w
      else case hash_file hs (disk w) filename of
             Inl e \<Rightarrow> Inl (e, w)
           | Inr file_hash \<Rightarrow>
               (let w1 = commit s (connect s w) w
                in case hashes_table (connect s w) of
                     Inl e \<Rightarrow> Inl (e, w1)
                   | Inr rows \<Rightarrow>
                       if encodable filename
                       then Inr (commit s (Hashes (rows @ [(filename, file_hash)])) w)
                       else Inl (UnicodeEncodeError, w1)))"

text \<open>
  \<^verbatim>\<open>SELECT hash FROM hashes GROUP BY hash HAVING COUNT(hash) > 1\<close>: one result per
  distinct hash with more than one row. SQLite groups by sorting on the grouping
  column, so the groups come out in the order of the hashes. The column is never NULL
  (\<open>store_file\<close> inserts a string), so \<open>COUNT(hash)\<close> counts the rows of the group.
\<close>

definition duplicate_hashes :: "row list \<Rightarrow> string list" where
  "duplicate_hashes rows =
     filter (\<lambda>h. length (filter (\<lambda>r. snd r = h) rows) > 1) (sort (remdups (map snd rows)))"

text \<open>
  \<open>Storage._find_all_with_hash\<close>:
  \<^verbatim>\<open>SELECT filename FROM hashes WHERE hash = ? ORDER BY filename\<close>.
\<close>

definition find_all_with_hash :: "Session \<Rightarrow> 'txt world \<Rightarrow> string \<Rightarrow> error + string list" where
  "find_all_with_hash s w hash_to_find =
     (case hashes_table (connect s w) of
        Inl e \<Rightarrow> Inl e
      | Inr rows \<Rightarrow> Inr (sort (map fst (filter (\<lambda>r. snd r = hash_to_find) rows))))"

text \<open>The list comprehension of \<open>find_duplicates\<close>; the first exception ends it.\<close>

fun duplicates_for :: "Session \<Rightarrow> 'txt world \<Rightarrow> string list \<Rightarrow> error + Duplicate list" where
  "duplicates_for s w [] = Inr []"
| "duplicates_for s w (duplicate_hash # rest) =
     (case find_all_with_hash s w duplicate_hash of
        Inl e \<Rightarrow> Inl e
      | Inr fs \<Rightarrow>
          (case duplicates_for s w rest of
             Inl e \<Rightarrow> Inl e
           | Inr ds \<Rightarrow> Inr (\<lparr>content_hash = duplicate_hash, files = fs\<rparr> # ds)))"

definition find_duplicates :: "Session \<Rightarrow> 'txt world \<Rightarrow> error + Duplicate list" where
  "find_duplicates s w =
     (case hashes_table (connect s w) of
        Inl e \<Rightarrow> Inl e
      | Inr rows \<Rightarrow> duplicates_for s w (duplicate_hashes rows))"



section \<open>JSON documents of the deletion queue\<close>

text \<open>
  The values \<open>json.load\<close> returns and \<open>json.dump\<close> takes. An object is the list of
  its items in insertion order, with distinct keys, as a Python \<open>dict\<close> is.
\<close>

datatype json =
  JNull | JBool bool | JNumber int | JString string
| JArray "json list" | JObject "(string \<times> json) list"

text \<open>\<open>to_dict\<close> of the two dataclasses (dataclasses\_json): one item per field.\<close>

definition Duplicate_to_dict :: "Duplicate \<Rightarrow> json" where
  "Duplicate_to_dict d =
     JObject [(''content_hash'', JString (content_hash d)),
              (''files'', JArray (map JString (files d)))]"

definition to_dict :: "DeletionEntry \<Rightarrow> json" where
  "to_dict entry =
     JObject [(''duplicate'', Duplicate_to_dict (duplicate entry)),
              (''to_keep'', JString (to_keep entry))]"

text \<open>
  \<open>from_dict\<close> reads the fields back by name. This is the library's decoding on
  objects of the persisted shape, which is what \<open>to_dict\<close> writes. On a value of another
  shape the library raises in some cases (a missing field), keeps a value that breaks
  the declared field type in others (\<open>null\<close>), and coerces in others (a number for
  \<open>to_keep\<close> becomes its decimal text, a string for \<open>files\<close> the list of its
  characters) so that \<open>load\<close> returns a queue. All of these are answered with
  \<open>SchemaError\<close> here: the answer says that the document is not of the persisted
  shape, not what \<open>load\<close> does with it, and nothing below is concluded from it.
\<close>

fun strings_of :: "json list \<Rightarrow> error + string list" where
  "strings_of [] = Inr []"
| "strings_of (JString s # rest) =
     (case strings_of rest of Inl e \<Rightarrow> Inl e | Inr ss \<Rightarrow> Inr (s # ss))"
| "strings_of (_ # rest) = Inl SchemaError"

fun Duplicate_from_dict :: "json \<Rightarrow> error + Duplicate" where
  "Duplicate_from_dict (JObject kvs) =
     (case (map_of kvs ''content_hash'', map_of kvs ''files'') of
        (Some (JString h), Some (JArray fs)) \<Rightarrow>
          (case strings_of fs of
             Inl e \<Rightarrow> Inl e
           | Inr names \<Rightarrow> Inr \<lparr>content_hash = h, files = names\<rparr>)
      | _ \<Rightarrow> Inl SchemaError)"
| "Duplicate_from_dict _ = Inl SchemaError"

fun from_dict :: "json \<Rightarrow> error + DeletionEntry" where
  "from_dict (JObject kvs) =
     (case (map_of kvs ''duplicate'', map_of kvs ''to_keep'') of
        (Some dj, Some (JString k)) \<Rightarrow>
          (case Duplicate_from_dict dj of
             Inl e \<Rightarrow> Inl e
           | Inr d \<Rightarrow> Inr \<lparr>duplicate = d, to_keep = k\<rparr>)
      | _ \<Rightarrow> Inl SchemaError)"
| "from_dict _ = Inl SchemaError"

text \<open>
  \<open>for entry in data\<close>: a list gives its elements, a dict its keys, a string its
  characters; the other values are not iterable.
\<close>

fun iterate :: "json \<Rightarrow> error + json list" where
  "iterate (JArray xs) = Inr xs"
| "iterate (JObject kvs) = Inr (map (\<lambda>kv. JString (fst kv)) kvs)"
| "iterate (JString s) = Inr (map (\<lambda>c. JString [c]) s)"
| "iterate _ = Inl SchemaError"

section \<open>DeletionQueue\<close>

text \<open>
  \<open>_queue\<close> and \<open>_index\<close> hold references to the same \<open>DeletionEntry\<close> objects, and
  \<open>add\<close> assigns to a field of an object it reaches through \<open>_index\<close>. The objects
  therefore live in a store, \<open>objects\<close>, addressed by position; a new object is
  allocated at the end; \<open>queue\<close> is the list of references and \<open>index\<close> the dict from
  content hash to reference.
\<close>

record DeletionQueue =
  dq_session :: Session
  objects :: "DeletionEntry list"
  queue :: "nat list"
  index :: "string \<rightharpoonup> nat"

definition DeletionQueue_init :: "Session \<Rightarrow> DeletionQueue" where
  "DeletionQueue_init s = \<lparr>dq_session = s, objects = [], queue = [], index = Map.empty\<rparr>"

text \<open>The entries \<open>iter(self._queue)\<close> yields, in order.\<close>

definition entry_list :: "DeletionQueue \<Rightarrow> DeletionEntry list" where
  "entry_list q = map (\<lambda>a. objects q ! a) (queue q)"

definition get_by_hash :: "DeletionQueue \<Rightarrow> string \<Rightarrow> nat option" where
  "get_by_hash q h = index q h"

definition clear_deletion_queue :: "DeletionQueue \<Rightarrow> DeletionQueue" where
  "clear_deletion_queue q = q\<lparr>queue := [], index := Map.empty\<rparr>"

definition add_new :: "DeletionEntry \<Rightarrow> DeletionQueue \<Rightarrow> DeletionQueue" where
  "add_new entry q =
     (let a = length (objects q)
      in q\<lparr>objects := objects q @ [entry],
           queue := queue q @ [a],
           index := (index q)(content_hash (duplicate entry) \<mapsto> a)\<rparr>)"

definition add :: "Duplicate \<Rightarrow> string \<Rightarrow> DeletionQueue \<Rightarrow> DeletionQueue" where
  "add d keep q =
     (case get_by_hash q (content_hash d) of
        Some a \<Rightarrow> q\<lparr>objects := (objects q)[a := (objects q ! a)\<lparr>to_keep := keep\<rparr>]\<rparr>
      | None \<Rightarrow> add_new \<lparr>duplicate = d, to_keep = keep\<rparr> q)"



text \<open>
  \<open>persist\<close> writes \<open>json.dump\<close> of the list of \<open>to_dict\<close>s to the session's queue file,
  replacing what was there.
\<close>

definition persist :: "(json \<Rightarrow> 'txt) \<Rightarrow> DeletionQueue \<Rightarrow> 'txt world \<Rightarrow> 'txt world" where
  "persist json_dump q w =
     w\<lparr>documents := (documents w)
         (queue_file (dq_session q) \<mapsto> json_dump (JArray (map to_dict (entry_list q))))\<rparr>"

text \<open>
  \<open>load\<close>: a fresh queue; \<open>open\<close> fails on a missing file, \<open>json.load\<close> on a text that is
  not JSON (\<open>json_load\<close> answers \<open>None\<close>); every element is decoded and appended with
  \<open>_add_new\<close>. No exception is caught.
\<close>

fun load_entries :: "json list \<Rightarrow> DeletionQueue \<Rightarrow> error + DeletionQueue" where
  "load_entries [] ret = Inr ret"
| "load_entries (entry # rest) ret =
     (case from_dict entry of
        Inl e \<Rightarrow> Inl e
      | Inr de \<Rightarrow> load_entries rest (add_new de ret))"

definition load :: "('txt \<Rightarrow> json option) \<Rightarrow> Session \<Rightarrow> 'txt world \<Rightarrow> error + DeletionQueue" where
  "load json_load s w =
     (case documents w (queue_file s) of
        None \<Rightarrow> Inl OSError
      | Some f \<Rightarrow>
          (case json_load f of
             None \<Rightarrow> Inl JSONDecodeError
           | Some data \<Rightarrow>
               (case iterate data of
                  Inl e \<Rightarrow> Inl e
                | Inr items \<Rightarrow> load_entries items (DeletionQueue_init s))))"

section \<open>App\<close>

record 'txt App =
  session :: Session
  delete_queue :: DeletionQueue
  world :: "'txt world"

text \<open>\<open>os.path.join\<close> of two components (posixpath).\<close>

definition path_join :: "string \<Rightarrow> string \<Rightarrow> string" where
  "path_join a b =
     (if b \<noteq> [] \<and> hd b = CHR ''/'' then b
      else if a = [] \<or> last a = CHR ''/'' then a @ b
      else a @ ''/'' @ b)"

text \<open>
  \<open>analyze_dir\<close>. The triples \<open>(root, dirs, files)\<close> that \<open>os.walk(top_dir)\<close> yields are
  given as the list \<open>tree\<close>. Neither loop catches an exception of \<open>store_file\<close>: it
  leaves \<open>analyze_dir\<close> with the queue cleared and the index as far as it was built.
\<close>

fun store_files ::
  "'h hasher \<Rightarrow> Session \<Rightarrow> string \<Rightarrow> string list \<Rightarrow> 'txt world
     \<Rightarrow> (error \<times> 'txt world) + 'txt world" where
  "store_files hs s root [] w = Inr w"
| "store_files hs s root (file # rest) w =
     (case store_file hs s (path_join root file) w of
        Inl e \<Rightarrow> Inl e
      | Inr w1 \<Rightarrow> store_files hs s root rest w1)"

fun sweep ::
  "'h hasher \<Rightarrow> Session \<Rightarrow> (string \<times> string list \<times> string list) list \<Rightarrow> 'txt world
     \<Rightarrow> (error \<times> 'txt world) + 'txt world" where
  "sweep hs s [] w = Inr w"
| "sweep hs s ((root, dirs, fs) # rest) w =
     (case store_files hs s root fs w of
        Inl e \<Rightarrow> Inl e
      | Inr w1 \<Rightarrow> sweep hs s rest w1)"

definition analyze_dir ::
  "'h hasher \<Rightarrow> (string \<times> string list \<times> string list) list \<Rightarrow> 'txt App
     \<Rightarrow> (error \<times> 'txt App) + 'txt App" where
  "analyze_dir hs tree app =
     (case reset (session app) (world app) of
        Inl (e, w1) \<Rightarrow> Inl (e, app\<lparr>world := w1\<rparr>)
      | Inr w1 \<Rightarrow>
          (let q1 = clear_deletion_queue (delete_queue app)
           in case sweep hs (session app) tree w1 of
                Inl (e, w2) \<Rightarrow> Inl (e, app\<lparr>delete_queue := q1, world := w2\<rparr>)
              | Inr w2 \<Rightarrow> Inr (app\<lparr>delete_queue := q1, world := w2\<rparr>)))"




text \<open>The rows of a session's index, for stating results (no rows without the table).\<close>

definition records :: "Session \<Rightarrow> 'txt world \<Rightarrow> row list" where
  "records s w = (case hashes_table (connect s w) of Inl e \<Rightarrow> [] | Inr rows \<Rightarrow> rows)"

text \<open>The paths \<open>analyze_dir\<close> hands to \<open>store_file\<close>, in the order of the sweep.\<close>

definition swept_paths :: "(string \<times> string list \<times> string list) list \<Rightarrow> string list" where
  "swept_paths tree = concat (map (\<lambda>t. map (path_join (fst t)) (snd (snd t))) tree)"

text \<open>A sequence of \<open>add\<close> calls, each given by its two arguments.\<close>

definition add_calls :: "(Duplicate \<times> string) list \<Rightarrow> DeletionQueue \<Rightarrow> DeletionQueue" where
  "add_calls calls q = fold (\<lambda>c. add (fst c) (snd c)) calls q"

text \<open>The content hashes of the queued entries, in queue order.\<close>

definition queued_hashes :: "DeletionQueue \<Rightarrow> string list" where
  "queued_hashes q = map (\<lambda>entry. content_hash (duplicate entry)) (entry_list q)"

text \<open>
  A queue is in order when its references are distinct and allocated and \<open>index\<close>
  finds every queued entry under its own hash. \<open>index_ok\<close> is the converse: \<open>index\<close>
  holds nothing but queued entries, each under its hash.
\<close>

definition queue_ok :: "DeletionQueue \<Rightarrow> bool" where
  "queue_ok q \<longleftrightarrow>
     distinct (queue q) \<and>
     list_all (\<lambda>a. a < length (objects q) \<and>
                   index q (content_hash (duplicate (objects q ! a))) = Some a) (queue q)"

definition index_ok :: "DeletionQueue \<Rightarrow> bool" where
  "index_ok q \<longleftrightarrow>
     (\<forall>h a. index q h = Some a \<longrightarrow>
        a \<in> set (queue q) \<and> content_hash (duplicate (objects q ! a)) = h)"

text \<open>
  A path that \<open>open\<close> or \<open>read\<close> fails on; a path the sweep fails on, with the
  exception it raises there; and the rows a sweep over \<open>paths\<close> is expected to insert:
  one per supported path, with the digest of the file's bytes.
\<close>

definition unreadable :: "(string \<rightharpoonup> fnode) \<Rightarrow> string \<Rightarrow> bool" where
  "unreadable d p = (case d p of None \<Rightarrow> True | Some node \<Rightarrow> \<not> readable node)"

definition sweep_fails :: "(string \<rightharpoonup> fnode) \<Rightarrow> string \<Rightarrow> bool" where
  "sweep_fails d p \<longleftrightarrow> is_supported p \<and> (unreadable d p \<or> \<not> encodable p)"

definition sweep_error :: "(string \<rightharpoonup> fnode) \<Rightarrow> string \<Rightarrow> error" where
  "sweep_error d p = (if unreadable d p then OSError else UnicodeEncodeError)"

definition index_rows :: "'h hasher \<Rightarrow> (string \<rightharpoonup> fnode) \<Rightarrow> string list \<Rightarrow> row list" where
  "index_rows hs d paths =
     map (\<lambda>p. (p, digest hs (content (the (d p))))) (filter is_supported paths)"




section \<open>Example data\<close>

text \<open>
  A session, a stand-in for the hash object whose digest is the bytes themselves, and a
  small disk: two identical pictures, a text file with the same bytes, a picture that
  can be neither read nor unlinked and one with the same bytes that can, a picture
  named by an extension alone, and a picture whose name is not UTF-8.
\<close>

definition ex_session :: Session where
  "ex_session = Session ''s''"

definition ex_hasher :: "string hasher" where
  "ex_hasher = \<lparr>h_new = [], h_update = (\<lambda>h chunk. h @ chunk), h_hexdigest = (\<lambda>h. h)\<rparr>"

definition ex_disk :: "string \<rightharpoonup> fnode" where
  "ex_disk =
     [''pics/a.jpg'' \<mapsto> \<lparr>content = ''X'', readable = True, removable = True\<rparr>,
      ''pics/b.jpg'' \<mapsto> \<lparr>content = ''X'', readable = True, removable = True\<rparr>,
      ''pics/c.txt'' \<mapsto> \<lparr>content = ''X'', readable = True, removable = True\<rparr>,
      ''pics/d.png'' \<mapsto> \<lparr>content = ''Y'', readable = False, removable = False\<rparr>,
      ''pics/e.png'' \<mapsto> \<lparr>content = ''Y'', readable = True, removable = True\<rparr>,
      ''JPEG'' \<mapsto> \<lparr>content = ''Z'', readable = True, removable = True\<rparr>,
      [CHR ''p'', CHR ''i'', CHR ''c'', CHR ''s'', CHR ''/'', CHR ''f'', CHR 0xFF, CHR ''.'',
       CHR ''p'', CHR ''n'', CHR ''g'']
        \<mapsto> \<lparr>content = ''W'', readable = True, removable = True\<rparr>]"

definition ex_world :: "'txt world" where
  "ex_world = \<lparr>disk = ex_disk, databases = Map.empty, documents = Map.empty\<rparr>"

definition ex_app :: "'txt App" where
  "ex_app = \<lparr>session = ex_session, delete_queue = DeletionQueue_init ex_session,
             world = ex_world\<rparr>"

definition ex_tree_good :: "(string \<times> string list \<times> string list) list" where
  "ex_tree_good = [(''pics'', [], [''b.jpg'', ''a.jpg'', ''c.txt''])]"

definition ex_tree_bad :: "(string \<times> string list \<times> string list) list" where
  "ex_tree_bad = [(''pics'', [], [''a.jpg'', ''d.png'', ''b.jpg''])]"

text \<open>
  A tree with a readable picture whose name is not UTF-8 (its second byte is 255),
  between two pictures whose names are.
\<close>

definition ex_odd_name :: string where
  "ex_odd_name = [CHR ''f'', CHR 0xFF, CHR ''.'', CHR ''p'', CHR ''n'', CHR ''g'']"

definition ex_tree_odd :: "(string \<times> string list \<times> string list) list" where
  "ex_tree_odd = [(''pics'', [], [''b.jpg'', ex_odd_name, ''a.jpg''])]"

text \<open>An index with one group of two files and a file alone, in two row orders.\<close>

definition ex_rows :: "row list" where
  "ex_rows = [(''pics/b.jpg'', ''X''), (''pics/e.png'', ''Y''), (''pics/a.jpg'', ''X'')]"

definition ex_indexed :: "'txt world" where
  "ex_indexed = commit ex_session (Hashes ex_rows) ex_world"

definition ex_indexed_rev :: "'txt world" where
  "ex_indexed_rev = commit ex_session (Hashes (rev ex_rows)) ex_world"

text \<open>A decoder that knows one document, and a queue file that is not JSON.\<close>

definition ex_json_load :: "string \<Rightarrow> json option" where
  "ex_json_load t = (if t = ''[]'' then Some (JArray []) else None)"

definition ex_garbled :: "string world" where
  "ex_garbled = ex_world\<lparr>documents := [queue_file ex_session \<mapsto> ''{oops'']\<rparr>"

text \<open>Two decisions, and the queue they make on a fresh queue.\<close>

definition ex_group1 :: Duplicate where
  "ex_group1 = \<lparr>content_hash = ''X'', files = [''pics/a.jpg'', ''pics/b.jpg'']\<rparr>"

definition ex_group2 :: Duplicate where
  "ex_group2 = \<lparr>content_hash = ''Y'', files = [''pics/d.png'', ''pics/e.png'']\<rparr>"

definition ex_queue :: DeletionQueue where
  "ex_queue =
     add ex_group2 ''pics/d.png'' (add ex_group1 ''pics/a.jpg'' (DeletionQueue_init ex_session))"







section \<open>Proofs\<close>


subsection \<open>The to\_delete view\<close>

lemma to_delete_loop_filter:
  "to_delete_loop keep fs = filter (\<lambda>filename. filename \<noteq> keep) fs"
  by (induction fs) simp_all

text \<open>
  C8. For every DeletionEntry, \<open>to_delete\<close> yields exactly the elements of
  \<open>duplicate.files\<close> that differ from \<open>to_keep\<close>, in the order they have in
  \<open>duplicate.files\<close>.
\<close>

theorem to_delete_is_filter:
  "to_delete entry = filter (\<lambda>filename. filename \<noteq> to_keep entry) (files (duplicate entry))"
  by (simp add: to_delete_def to_delete_loop_filter)

subsection \<open>Storage.reset\<close>

lemma reset_eq: "reset s w = Inr (w\<lparr>databases := (databases w)(db s \<mapsto> Hashes [])\<rparr>)"
  by (simp add: reset_def connect_def commit_def Let_def)

text \<open>
  C9. \<open>Storage.reset\<close> succeeds whatever is at the session's database path: no file,
  a database with or without the table, or a file that is no database. It leaves the
  table \<open>hashes\<close> with no rows, so the index has no records and no duplicate groups.
\<close>

theorem reset_gives_empty_index:
  "reset s w = Inr (w\<lparr>databases := (databases w)(db s \<mapsto> Hashes [])\<rparr>) \<and>
   records s (w\<lparr>databases := (databases w)(db s \<mapsto> Hashes [])\<rparr>) = [] \<and>
   find_duplicates s (w\<lparr>databases := (databases w)(db s \<mapsto> Hashes [])\<rparr>) = Inr []"
  by (simp add: reset_eq records_def connect_def find_duplicates_def duplicate_hashes_def)

subsection \<open>DeletionQueue.load on a missing or malformed document\<close>

text \<open>
  C5. When the session's queue file is missing, \<open>DeletionQueue.load\<close> fails with the
  I/O error of \<open>open\<close>; when its text is not JSON, with the decoder's error. In neither
  case does it return a queue, empty or not.
\<close>

theorem load_fails_without_document:
  "(documents w (queue_file s) = None \<longrightarrow> load json_load s w = Inl OSError) \<and>
   (documents w (queue_file s) = Some f \<and> json_load f = None
      \<longrightarrow> load json_load s w = Inl JSONDecodeError)"
  by (simp add: load_def)

theorem load_fails_without_document_witness:
  "documents (ex_world :: string world) (queue_file ex_session) = None \<and>
   load ex_json_load ex_session (ex_world :: string world) = Inl OSError \<and>
   documents ex_garbled (queue_file ex_session) = Some ''{oops'' \<and>
   ex_json_load ''{oops'' = None \<and>
   load ex_json_load ex_session ex_garbled = Inl JSONDecodeError"
  using load_fails_without_document
      [where w = "ex_world :: string world" and s = ex_session and json_load = ex_json_load]
    load_fails_without_document
      [where w = ex_garbled and s = ex_session and f = "''{oops''" and json_load = ex_json_load]
  by (simp add: ex_world_def ex_garbled_def ex_json_load_def)

subsection \<open>Storage.find\_duplicates\<close>

lemma find_all_with_hash_table:
  "databases w (db s) = Some (Hashes rows) \<Longrightarrow>
   find_all_with_hash s w h = Inr (sort (map fst (filter (\<lambda>r. snd r = h) rows)))"
  by (simp add: find_all_with_hash_def connect_def)

lemma duplicates_for_table:
  "databases w (db s) = Some (Hashes rows) \<Longrightarrow>
   duplicates_for s w hs =
     Inr (map (\<lambda>h. \<lparr>content_hash = h, files = sort (map fst (filter (\<lambda>r. snd r = h) rows))\<rparr>) hs)"
  by (induction hs) (simp_all add: find_all_with_hash_table)

lemma find_duplicates_table:
  "databases w (db s) = Some (Hashes rows) \<Longrightarrow>
   find_duplicates s w =
     Inr (map (\<lambda>h. \<lparr>content_hash = h, files = sort (map fst (filter (\<lambda>r. snd r = h) rows))\<rparr>)
            (duplicate_hashes rows))"
  by (simp add: find_duplicates_def connect_def duplicates_for_table)

lemma distinct_duplicate_hashes: "distinct (duplicate_hashes rows)"
  by (simp add: duplicate_hashes_def)

lemma set_duplicate_hashes:
  "set (duplicate_hashes rows) = {h. 2 \<le> length (filter (\<lambda>r. snd r = h) rows)}"
proof -
  have "h \<in> snd ` set rows" if "2 \<le> length (filter (\<lambda>r. snd r = h) rows)" for h
  proof -
    from that have "filter (\<lambda>r. snd r = h) rows \<noteq> []" by auto
    then obtain r where "r \<in> set rows" "snd r = h"
      by (auto simp: filter_empty_conv)
    then show ?thesis by auto
  qed
  then show ?thesis
    by (auto simp: duplicate_hashes_def)
qed

lemma length_filter_mset:
  "length (filter P xs) = size (filter_mset P (mset xs))"
  by (metis mset_filter size_mset)

lemma duplicate_hashes_mset:
  assumes "mset rows' = mset rows"
  shows "duplicate_hashes rows' = duplicate_hashes rows"
proof -
  have s: "set (map snd rows') = set (map snd rows)"
    using assms by (metis mset_eq_setD set_map)
  have "sort (remdups (map snd rows')) = sort (remdups (map snd rows))"
    using s by (metis sorted_list_of_set_sort_remdups)
  moreover have "length (filter P rows') = length (filter P rows)" for P
    using assms by (simp add: length_filter_mset)
  ultimately show ?thesis
    by (simp add: duplicate_hashes_def)
qed

lemma group_files_mset:
  assumes "mset rows' = mset rows"
  shows "sort (map fst (filter P rows')) = sort (map fst (filter P rows))"
proof -
  have "mset (map fst (filter P rows')) = mset (map fst (filter P rows))"
    using assms by (metis mset_filter mset_map)
  then show ?thesis
    by (metis mset_sort properties_for_sort sorted_sort)
qed

text \<open>
  C6. On an index holding the rows \<open>rows\<close>, \<open>find_duplicates\<close> returns one group for
  each hash that at least two rows carry and for no other hash; the files of a group
  are the paths recorded with its hash, all of them and nothing else, in sorted order,
  so at least two; and the result is the same for any index holding the same rows in
  another order.
\<close>

theorem find_duplicates_groups:
  assumes "databases w (db s) = Some (Hashes rows)"
  shows "\<exists>ds. find_duplicates s w = Inr ds
     \<and> distinct (map content_hash ds)
     \<and> set (map content_hash ds) = {h. 2 \<le> length (filter (\<lambda>r. snd r = h) rows)}
     \<and> (\<forall>d \<in> set ds. sorted (files d)
           \<and> mset (files d) = mset (map fst (filter (\<lambda>r. snd r = content_hash d) rows))
           \<and> 2 \<le> length (files d))
     \<and> (\<forall>w' rows'. databases w' (db s) = Some (Hashes rows') \<and> mset rows' = mset rows
           \<longrightarrow> find_duplicates s w' = Inr ds)"
proof -
  let ?g = "\<lambda>rs h. \<lparr>content_hash = h, files = sort (map fst (filter (\<lambda>r. snd r = h) rs))\<rparr>"
  let ?ds = "map (?g rows) (duplicate_hashes rows)"
  have hs: "map content_hash ?ds = duplicate_hashes rows"
    by (simp add: comp_def)
  have 1: "find_duplicates s w = Inr ?ds"
    using assms by (rule find_duplicates_table)
  have 2: "distinct (map content_hash ?ds)"
    unfolding hs by (rule distinct_duplicate_hashes)
  have 3: "set (map content_hash ?ds) = {h. 2 \<le> length (filter (\<lambda>r. snd r = h) rows)}"
    unfolding hs by (rule set_duplicate_hashes)
  have 4: "sorted (files d)
           \<and> mset (files d) = mset (map fst (filter (\<lambda>r. snd r = content_hash d) rows))
           \<and> 2 \<le> length (files d)" if "d \<in> set ?ds" for d
  proof -
    from that obtain h where h: "h \<in> set (duplicate_hashes rows)" and d: "d = ?g rows h"
      by auto
    from h have "2 \<le> length (filter (\<lambda>r. snd r = h) rows)"
      by (simp add: set_duplicate_hashes)
    then show ?thesis
      by (simp add: d)
  qed
  have 5: "find_duplicates s w' = Inr ?ds"
    if "databases w' (db s) = Some (Hashes rows') \<and> mset rows' = mset rows" for w' :: "'b world" and rows'
  proof -
    from that have "find_duplicates s w' = Inr (map (?g rows') (duplicate_hashes rows'))"
      by (simp add: find_duplicates_table)
    moreover have "duplicate_hashes rows' = duplicate_hashes rows"
      using that by (intro duplicate_hashes_mset) simp
    moreover have "?g rows' h = ?g rows h" for h
      using group_files_mset [of rows' rows "\<lambda>r. snd r = h"] that by simp
    ultimately show ?thesis by simp
  qed
  have all4: "\<forall>d \<in> set ?ds. sorted (files d)
           \<and> mset (files d) = mset (map fst (filter (\<lambda>r. snd r = content_hash d) rows))
           \<and> 2 \<le> length (files d)"
    using 4 by blast
  have all5: "\<forall>(w' :: 'b world) rows'.
      databases w' (db s) = Some (Hashes rows') \<and> mset rows' = mset rows
           \<longrightarrow> find_duplicates s w' = Inr ?ds"
    using 5 by blast
  show ?thesis
    apply (rule exI [of _ ?ds])
    apply (intro conjI)
        apply (rule 1)
       apply (rule 2)
      apply (rule 3)
     apply (rule all4)
    apply (rule all5)
    done
qed

theorem find_duplicates_groups_witness:
  "databases (ex_indexed :: unit world) (db ex_session) = Some (Hashes ex_rows) \<and>
   find_duplicates ex_session (ex_indexed :: unit world)
     = Inr [\<lparr>content_hash = ''X'', files = [''pics/a.jpg'', ''pics/b.jpg'']\<rparr>] \<and>
   find_duplicates ex_session (ex_indexed_rev :: unit world)
     = Inr [\<lparr>content_hash = ''X'', files = [''pics/a.jpg'', ''pics/b.jpg'']\<rparr>]"
  using find_duplicates_groups [of "ex_indexed :: unit world" ex_session ex_rows]
  by (simp add: ex_indexed_def ex_indexed_rev_def ex_rows_def commit_def find_duplicates_def
      connect_def duplicate_hashes_def find_all_with_hash_def)

subsection \<open>DeletionQueue.add\<close>

lemma queue_okD:
  "queue_ok q \<Longrightarrow> a \<in> set (queue q) \<Longrightarrow>
     a < length (objects q) \<and> index q (content_hash (duplicate (objects q ! a))) = Some a"
  by (simp add: queue_ok_def list_all_iff)

lemma queue_ok_same_hash:
  assumes "queue_ok q" "a \<in> set (queue q)" "b \<in> set (queue q)"
    and "content_hash (duplicate (objects q ! a)) = content_hash (duplicate (objects q ! b))"
  shows "a = b"
proof -
  have "Some a = index q (content_hash (duplicate (objects q ! a)))"
    using queue_okD [OF assms(1,2)] by simp
  also have "\<dots> = index q (content_hash (duplicate (objects q ! b)))"
    by (simp only: assms(4))
  also have "\<dots> = Some b"
    using queue_okD [OF assms(1,3)] by simp
  finally show ?thesis by simp
qed

lemma distinct_queued_hashes: "queue_ok q \<Longrightarrow> distinct (queued_hashes q)"
proof -
  assume ok: "queue_ok q"
  have "inj_on (\<lambda>a. content_hash (duplicate (objects q ! a))) (set (queue q))"
    by (rule inj_onI) (rule queue_ok_same_hash [OF ok])
  moreover have "distinct (queue q)" using ok by (simp add: queue_ok_def)
  ultimately show ?thesis
    by (simp add: queued_hashes_def entry_list_def distinct_map comp_def)
qed

lemma index_queued_hashes:
  assumes "queue_ok q" "index_ok q"
  shows "index q h \<noteq> None \<longleftrightarrow> h \<in> set (queued_hashes q)"
proof
  assume "index q h \<noteq> None"
  then obtain a where "index q h = Some a" by auto
  with assms(2) have "a \<in> set (queue q)" "content_hash (duplicate (objects q ! a)) = h"
    by (auto simp: index_ok_def)
  then show "h \<in> set (queued_hashes q)"
    by (auto simp: queued_hashes_def entry_list_def)
next
  assume "h \<in> set (queued_hashes q)"
  then obtain a where "a \<in> set (queue q)" "h = content_hash (duplicate (objects q ! a))"
    by (auto simp: queued_hashes_def entry_list_def)
  with queue_okD [OF assms(1)] show "index q h \<noteq> None" by auto
qed

lemma init_ok: "queue_ok (DeletionQueue_init s)" "index_ok (DeletionQueue_init s)"
  by (simp_all add: queue_ok_def index_ok_def DeletionQueue_init_def)

lemma entry_list_add_new:
  assumes "queue_ok q"
  shows "entry_list (add_new entry q) = entry_list q @ [entry]"
proof -
  have "(objects q @ [entry]) ! a = objects q ! a" if "a \<in> set (queue q)" for a
    using queue_okD [OF assms that] by (simp add: nth_append)
  then show ?thesis
    by (simp add: add_new_def entry_list_def Let_def)
qed

lemma add_new_ok:
  assumes "queue_ok q" "index_ok q" "index q (content_hash (duplicate entry)) = None"
  shows "queue_ok (add_new entry q)" "index_ok (add_new entry q)"
proof -
  have fresh: "length (objects q) \<notin> set (queue q)"
    using queue_okD [OF assms(1)] by auto
  have old: "a < length (objects q) \<and> (objects q @ [entry]) ! a = objects q ! a
      \<and> content_hash (duplicate (objects q ! a)) \<noteq> content_hash (duplicate entry)"
    if "a \<in> set (queue q)" for a
    using queue_okD [OF assms(1) that] assms(3) by (auto simp: nth_append)
  show "queue_ok (add_new entry q)"
    using assms(1) fresh old
    by (auto simp: queue_ok_def add_new_def Let_def list_all_iff intro: less_SucI)
  show "index_ok (add_new entry q)"
    using assms(2) old
    by (auto simp: index_ok_def add_new_def Let_def nth_append split: if_splits)
qed

lemma entry_list_add_existing:
  assumes "queue_ok q" "index_ok q" "index q (content_hash d) = Some a"
  shows "entry_list (add d keep q) =
     map (\<lambda>entry. if content_hash (duplicate entry) = content_hash d
                  then entry\<lparr>to_keep := keep\<rparr> else entry) (entry_list q)"
proof -
  have a: "a \<in> set (queue q)" "content_hash (duplicate (objects q ! a)) = content_hash d"
    using assms(2,3) by (auto simp: index_ok_def)
  have "(objects q)[a := (objects q ! a)\<lparr>to_keep := keep\<rparr>] ! b =
        (if content_hash (duplicate (objects q ! b)) = content_hash d
         then (objects q ! b)\<lparr>to_keep := keep\<rparr> else objects q ! b)"
    if b: "b \<in> set (queue q)" for b
  proof (cases "b = a")
    case True
    with a queue_okD [OF assms(1) b] show ?thesis by simp
  next
    case False
    with queue_ok_same_hash [OF assms(1) b a(1)] a(2) show ?thesis by auto
  qed
  then show ?thesis
    using assms(3) by (simp add: add_def get_by_hash_def entry_list_def)
qed

lemma add_existing_ok:
  assumes "queue_ok q" "index_ok q" "index q (content_hash d) = Some a"
  shows "queue_ok (add d keep q)" "index_ok (add d keep q)"
proof -
  have h: "content_hash (duplicate ((objects q)[a := (objects q ! a)\<lparr>to_keep := keep\<rparr>] ! b))
         = content_hash (duplicate (objects q ! b))" for b
    by (cases "b = a"; cases "a < length (objects q)") (simp_all add: list_update_beyond not_less)
  show "queue_ok (add d keep q)"
    using assms(1,3) by (simp add: add_def get_by_hash_def queue_ok_def h)
  show "index_ok (add d keep q)"
    using assms(2,3) by (simp add: add_def get_by_hash_def index_ok_def h)
qed

lemma add_ok:
  assumes "queue_ok q" "index_ok q"
  shows "queue_ok (add d keep q)" "index_ok (add d keep q)"
proof -
  show "queue_ok (add d keep q)"
  proof (cases "index q (content_hash d)")
    case None
    then show ?thesis
      using add_new_ok(1) [OF assms, of "\<lparr>duplicate = d, to_keep = keep\<rparr>"]
      by (simp add: add_def get_by_hash_def)
  next
    case (Some a)
    then show ?thesis by (rule add_existing_ok(1) [OF assms])
  qed
  show "index_ok (add d keep q)"
  proof (cases "index q (content_hash d)")
    case None
    then show ?thesis
      using add_new_ok(2) [OF assms, of "\<lparr>duplicate = d, to_keep = keep\<rparr>"]
      by (simp add: add_def get_by_hash_def)
  next
    case (Some a)
    then show ?thesis by (rule add_existing_ok(2) [OF assms])
  qed
qed

lemma entry_list_add:
  assumes "queue_ok q" "index_ok q"
  shows "entry_list (add d keep q) =
     (if content_hash d \<in> set (queued_hashes q)
      then map (\<lambda>entry. if content_hash (duplicate entry) = content_hash d
                        then entry\<lparr>to_keep := keep\<rparr> else entry) (entry_list q)
      else entry_list q @ [\<lparr>duplicate = d, to_keep = keep\<rparr>])"
proof (cases "index q (content_hash d)")
  case None
  with index_queued_hashes [OF assms, of "content_hash d"]
  have "content_hash d \<notin> set (queued_hashes q)" by simp
  with None show ?thesis
    by (simp add: add_def get_by_hash_def entry_list_add_new [OF assms(1)])
next
  case (Some a)
  with index_queued_hashes [OF assms, of "content_hash d"]
  have "content_hash d \<in> set (queued_hashes q)" by simp
  with Some show ?thesis
    by (simp add: entry_list_add_existing [OF assms Some])
qed

lemma queued_hashes_add:
  assumes "queue_ok q" "index_ok q"
  shows "queued_hashes (add d keep q) =
     (if content_hash d \<in> set (queued_hashes q) then queued_hashes q
      else queued_hashes q @ [content_hash d])"
proof -
  have same: "content_hash (duplicate (if P then entry\<lparr>to_keep := keep\<rparr> else entry))
        = content_hash (duplicate entry)" for P and entry :: DeletionEntry
    by simp
  show ?thesis
    unfolding queued_hashes_def entry_list_add [OF assms]
    by (simp add: comp_def same)
qed

lemma add_calls_ok:
  "queue_ok q \<Longrightarrow> index_ok q \<Longrightarrow>
   queue_ok (add_calls calls q) \<and> index_ok (add_calls calls q) \<and>
   set (queued_hashes (add_calls calls q)) =
     set (queued_hashes q) \<union> set (map (\<lambda>c. content_hash (fst c)) calls)"
proof (induction calls arbitrary: q)
  case Nil
  then show ?case by (simp add: add_calls_def)
next
  case (Cons c calls)
  have "add_calls (c # calls) q = add_calls calls (add (fst c) (snd c) q)"
    by (simp add: add_calls_def)
  moreover have "set (queued_hashes (add (fst c) (snd c) q))
      = insert (content_hash (fst c)) (set (queued_hashes q))"
    by (auto simp: queued_hashes_add [OF Cons.prems])
  ultimately show ?case
    using Cons.IH [OF add_ok [OF Cons.prems], of "fst c" "snd c"] by simp

qed

lemma add_idem: "add d keep (add d keep q) = add d keep q"
proof (cases "index q (content_hash d)")
  case None
  then show ?thesis
    by (simp add: add_def get_by_hash_def add_new_def Let_def)
next
  case (Some a)
  then show ?thesis
    by (cases "a < length (objects q)")
      (simp_all add: add_def get_by_hash_def list_update_beyond not_less)
qed

text \<open>
  C3. After any sequence of \<open>add\<close> calls on a fresh queue the queued entries have
  pairwise different content hashes, and there are no more of them than distinct
  hashes among the calls. A further \<open>add\<close> for a hash that is queued changes the
  \<open>to_keep\<close> of that entry and nothing else, the entry keeping its place; for a hash
  that is not queued it appends a new entry. Repeating an \<open>add\<close> with the same
  arguments changes nothing.
\<close>

theorem add_upserts:
  "distinct (queued_hashes (add_calls calls (DeletionQueue_init s))) \<and>
   length (entry_list (add_calls calls (DeletionQueue_init s)))
     \<le> card (set (map (\<lambda>c. content_hash (fst c)) calls)) \<and>
   entry_list (add d keep (add_calls calls (DeletionQueue_init s))) =
     (if content_hash d \<in> set (queued_hashes (add_calls calls (DeletionQueue_init s)))
      then map (\<lambda>entry. if content_hash (duplicate entry) = content_hash d
                        then entry\<lparr>to_keep := keep\<rparr> else entry)
             (entry_list (add_calls calls (DeletionQueue_init s)))
      else entry_list (add_calls calls (DeletionQueue_init s)) @ [\<lparr>duplicate = d, to_keep = keep\<rparr>]) \<and>
   add d keep (add d keep (add_calls calls (DeletionQueue_init s)))
     = add d keep (add_calls calls (DeletionQueue_init s))"
proof -
  let ?q = "add_calls calls (DeletionQueue_init s)"
  note r = add_calls_ok [OF init_ok, where calls = calls and s1 = s]
  have e: "queued_hashes (DeletionQueue_init s) = []"
    by (simp add: queued_hashes_def entry_list_def DeletionQueue_init_def)
  have ok: "queue_ok ?q" "index_ok ?q"
    using r by blast+
  have hs: "set (queued_hashes ?q) = set (map (\<lambda>c. content_hash (fst c)) calls)"
    using r unfolding e by simp
  have d: "distinct (queued_hashes ?q)"
    by (rule distinct_queued_hashes [OF ok(1)])
  have "length (entry_list ?q) = length (queued_hashes ?q)"
    by (simp add: queued_hashes_def)
  also have "\<dots> = card (set (queued_hashes ?q))"
    using d by (simp add: distinct_card)
  finally have len: "length (entry_list ?q) \<le> card (set (map (\<lambda>c. content_hash (fst c)) calls))"
    by (simp add: hs)
  show ?thesis
    apply (intro conjI)
       apply (rule d)
      apply (rule len)
     apply (rule entry_list_add [OF ok])
    apply (rule add_idem)
    done
qed

subsection \<open>App.analyze\_dir\<close>

lemma hash_file_cases:
  "hash_file hs d p = (if unreadable d p then Inl OSError else Inr (digest hs (content (the (d p)))))"
  by (simp add: hash_file_def unreadable_def split: option.splits)

lemma commit_simps:
  "disk (commit s f w) = disk w"
  "databases (commit s f w) (db s) = Some f"
  "commit s f (commit s g w) = commit s f w"
  by (simp_all add: commit_def)

lemma commit_same:
  "databases w (db s) = Some f \<Longrightarrow> commit s f w = w"
  by (simp add: commit_def fun_upd_idem)

lemma store_file_table:
  assumes "databases w (db s) = Some (Hashes rows)"
  shows "store_file hs s p w =
     (if sweep_fails (disk w) p then Inl (sweep_error (disk w) p, w)
      else Inr (commit s (Hashes (rows @ index_rows hs (disk w) [p])) w))"
proof -
  have c: "connect s w = Hashes rows"
    using assms by (simp add: connect_def)
  have i: "commit s (Hashes rows) w = w"
    using assms by (rule commit_same)
  show ?thesis
    by (simp add: store_file_def hash_file_cases c i Let_def index_rows_def sweep_fails_def
        sweep_error_def)
qed

lemma index_rows_append:
  "index_rows hs d (ps @ qs) = index_rows hs d ps @ index_rows hs d qs"
  by (simp add: index_rows_def)

lemma index_rows_Cons:
  "index_rows hs d (p # qs) = index_rows hs d [p] @ index_rows hs d qs"
  by (simp add: index_rows_def)

text \<open>
  A sweep over a list of paths, started on a table with the rows \<open>rows\<close>: it ends at the
  first path it fails on, with the rows of the paths before it added, or adds the rows
  of all the paths.
\<close>

lemma store_files_table:
  "databases w (db s) = Some (Hashes rows) \<Longrightarrow>
   store_files hs s root fs w =
     (case find (sweep_fails (disk w)) (map (path_join root) fs) of
        None \<Rightarrow>
          Inr (commit s (Hashes (rows @ index_rows hs (disk w) (map (path_join root) fs))) w)
      | Some p \<Rightarrow>
          Inl (sweep_error (disk w) p,
               commit s (Hashes (rows @ index_rows hs (disk w)
                 (takeWhile (\<lambda>x. \<not> sweep_fails (disk w) x) (map (path_join root) fs)))) w))"
proof (induction fs arbitrary: w rows)
  case Nil
  then show ?case
    by (simp add: index_rows_def commit_same)
next
  case (Cons f fs)
  let ?p = "path_join root f"
  show ?case
  proof (cases "sweep_fails (disk w) ?p")
    case True
    have "store_files hs s root (f # fs) w = Inl (sweep_error (disk w) ?p, w)"
      using True by (simp add: store_file_table [OF Cons.prems])
    moreover have "commit s (Hashes (rows @ index_rows hs (disk w) [])) w = w"
      using Cons.prems by (simp add: index_rows_def commit_same)
    ultimately show ?thesis
      using True by simp
  next
    case False
    let ?rows1 = "rows @ index_rows hs (disk w) [?p]"
    let ?w1 = "commit s (Hashes ?rows1) w"
    have 1: "store_file hs s ?p w = Inr ?w1"
      using False by (simp add: store_file_table [OF Cons.prems])
    have 2: "databases ?w1 (db s) = Some (Hashes ?rows1)"
      by (simp add: commit_simps)
    have "store_files hs s root (f # fs) w = store_files hs s root fs ?w1"
      by (simp add: 1)
    also have "\<dots> =
      (case find (sweep_fails (disk ?w1)) (map (path_join root) fs) of
        None \<Rightarrow>
          Inr (commit s (Hashes (?rows1 @ index_rows hs (disk ?w1) (map (path_join root) fs))) ?w1)
      | Some p \<Rightarrow>
          Inl (sweep_error (disk ?w1) p,
               commit s (Hashes (?rows1 @ index_rows hs (disk ?w1)
                 (takeWhile (\<lambda>x. \<not> sweep_fails (disk ?w1) x) (map (path_join root) fs)))) ?w1))"
      by (rule Cons.IH [OF 2])
    also have "\<dots> =
      (case find (sweep_fails (disk w)) (map (path_join root) (f # fs)) of
        None \<Rightarrow>
          Inr (commit s (Hashes (rows @ index_rows hs (disk w) (map (path_join root) (f # fs)))) w)
      | Some p \<Rightarrow>
          Inl (sweep_error (disk w) p,
               commit s (Hashes (rows @ index_rows hs (disk w)
                 (takeWhile (\<lambda>x. \<not> sweep_fails (disk w) x) (map (path_join root) (f # fs))))) w))"
      using False
      by (simp add: commit_simps
          index_rows_Cons [of hs "disk w" ?p "map (path_join root) fs"]
          index_rows_Cons [of hs "disk w" ?p
            "takeWhile (\<lambda>x. \<not> sweep_fails (disk w) x) (map (path_join root) fs)"]
          split: option.splits)
    finally show ?thesis .
  qed
qed

lemma swept_paths_Cons:
  "swept_paths ((root, dirs, fs) # rest) = map (path_join root) fs @ swept_paths rest"
  by (simp add: swept_paths_def)

lemma find_in_append:
  "find P (xs @ ys) = (case find P xs of None \<Rightarrow> find P ys | Some x \<Rightarrow> Some x)"
  by (induction xs) simp_all

lemma takeWhile_until_found:
  "find P xs = Some x \<Longrightarrow> takeWhile (\<lambda>y. \<not> P y) (xs @ ys) = takeWhile (\<lambda>y. \<not> P y) xs"
  by (induction xs) (auto split: if_splits)

lemma takeWhile_not_found:
  "find P xs = None \<Longrightarrow>
   takeWhile (\<lambda>y. \<not> P y) (xs @ ys) = xs @ takeWhile (\<lambda>y. \<not> P y) ys"
  by (induction xs) (auto split: if_splits)

lemma sweep_table:
  "databases w (db s) = Some (Hashes rows) \<Longrightarrow>
   sweep hs s tree w =
     (case find (sweep_fails (disk w)) (swept_paths tree) of
        None \<Rightarrow> Inr (commit s (Hashes (rows @ index_rows hs (disk w) (swept_paths tree))) w)
      | Some p \<Rightarrow>
          Inl (sweep_error (disk w) p,
               commit s (Hashes (rows @ index_rows hs (disk w)
                 (takeWhile (\<lambda>x. \<not> sweep_fails (disk w) x) (swept_paths tree)))) w))"
proof (induction tree arbitrary: w rows)
  case Nil
  then show ?case
    by (simp add: swept_paths_def index_rows_def commit_same)
next
  case (Cons t tree)
  obtain root dirs fs where t: "t = (root, dirs, fs)" by (cases t) auto
  let ?ps = "map (path_join root) fs"
  show ?case
  proof (cases "find (sweep_fails (disk w)) ?ps")
    case (Some p)
    then show ?thesis
      by (simp add: t store_files_table [OF Cons.prems] swept_paths_Cons find_in_append
          takeWhile_until_found)
  next
    case None
    let ?rows1 = "rows @ index_rows hs (disk w) ?ps"
    let ?w1 = "commit s (Hashes ?rows1) w"
    have 1: "store_files hs s root fs w = Inr ?w1"
      using None by (simp add: store_files_table [OF Cons.prems])
    have 2: "databases ?w1 (db s) = Some (Hashes ?rows1)"
      by (simp add: commit_simps)
    have "sweep hs s (t # tree) w = sweep hs s tree ?w1"
      by (simp add: t 1)
    also have "\<dots> =
      (case find (sweep_fails (disk ?w1)) (swept_paths tree) of
        None \<Rightarrow> Inr (commit s (Hashes (?rows1 @ index_rows hs (disk ?w1) (swept_paths tree))) ?w1)
      | Some p \<Rightarrow>
          Inl (sweep_error (disk ?w1) p,
               commit s (Hashes (?rows1 @ index_rows hs (disk ?w1)
                 (takeWhile (\<lambda>x. \<not> sweep_fails (disk ?w1) x) (swept_paths tree)))) ?w1))"
      by (rule Cons.IH [OF 2])
    also have "\<dots> =
      (case find (sweep_fails (disk w)) (swept_paths (t # tree)) of
        None \<Rightarrow> Inr (commit s (Hashes (rows @ index_rows hs (disk w) (swept_paths (t # tree)))) w)
      | Some p \<Rightarrow>
          Inl (sweep_error (disk w) p,
               commit s (Hashes (rows @ index_rows hs (disk w)
                 (takeWhile (\<lambda>x. \<not> sweep_fails (disk w) x) (swept_paths (t # tree))))) w))"
      using None
      by (simp add: t commit_simps swept_paths_Cons find_in_append takeWhile_not_found
          index_rows_append split: option.splits)
    finally show ?thesis .
  qed
qed

lemma analyze_dir_eq:
  "analyze_dir hs tree app =
     (case find (sweep_fails (disk (world app))) (swept_paths tree) of
        None \<Rightarrow>
          Inr (app\<lparr>delete_queue := clear_deletion_queue (delete_queue app),
                   world := commit (session app)
                     (Hashes (index_rows hs (disk (world app)) (swept_paths tree))) (world app)\<rparr>)
      | Some p \<Rightarrow>
          Inl (sweep_error (disk (world app)) p,
               app\<lparr>delete_queue := clear_deletion_queue (delete_queue app),
                   world := commit (session app)
                     (Hashes (index_rows hs (disk (world app))
                        (takeWhile (\<lambda>x. \<not> sweep_fails (disk (world app)) x) (swept_paths tree))))
                     (world app)\<rparr>))"
proof -
  let ?s = "session app"
  let ?w1 = "(world app)\<lparr>databases := (databases (world app))(db ?s \<mapsto> Hashes [])\<rparr>"
  have r: "reset ?s (world app) = Inr ?w1"
    by (simp add: reset_def connect_def commit_def Let_def)
  have t: "databases ?w1 (db ?s) = Some (Hashes [])" by simp
  have c: "commit ?s f ?w1 = commit ?s f (world app)" for f
    by (simp add: commit_def)
  show ?thesis
    by (simp add: analyze_dir_def r sweep_table [OF t] c Let_def split: option.splits)
qed

text \<open>
  C2, as the code has it. \<open>analyze_dir\<close> catches nothing. The sweep ends at the first
  supported file that cannot be read, or whose name sqlite3 cannot encode, with the
  exception raised there (the error of the read, or UnicodeEncodeError): the queue is
  cleared, the index holds the rows of the supported files before that one and of none
  after it. When there is no such file, \<open>analyze_dir\<close> returns normally with the queue
  cleared and the index holding one row per supported file, in sweep order, each with
  the digest of the file's bytes. Files without a supported extension are skipped,
  readable or not.
\<close>

theorem analyze_dir_result:
  "analyze_dir hs tree app =
     (case find (sweep_fails (disk (world app))) (swept_paths tree) of
        None \<Rightarrow>
          Inr (app\<lparr>delete_queue := clear_deletion_queue (delete_queue app),
                   world := commit (session app)
                     (Hashes (index_rows hs (disk (world app)) (swept_paths tree))) (world app)\<rparr>)
      | Some p \<Rightarrow>
          Inl (sweep_error (disk (world app)) p,
               app\<lparr>delete_queue := clear_deletion_queue (delete_queue app),
                   world := commit (session app)
                     (Hashes (index_rows hs (disk (world app))
                        (takeWhile (\<lambda>x. \<not> sweep_fails (disk (world app)) x) (swept_paths tree))))
                     (world app)\<rparr>))"
  by (rule analyze_dir_eq)

lemmas sweep_ex_defs =
  ex_app_def ex_world_def ex_disk_def ex_tree_good_def ex_tree_bad_def ex_tree_odd_def
  ex_odd_name_def
  ex_hasher_def swept_paths_def path_join_def unreadable_def index_rows_def digest_def
  sweep_fails_def sweep_error_def between_def continuation_def
  is_supported_def extension_def lower_def lower_char_def rsplit1_def supported_extensions_def

theorem analyze_dir_result_witness:
  "analyze_dir ex_hasher ex_tree_good (ex_app :: unit App) =
     Inr (ex_app\<lparr>delete_queue := clear_deletion_queue (delete_queue (ex_app :: unit App)),
                 world := commit ex_session
                   (Hashes [(''pics/b.jpg'', ''X''), (''pics/a.jpg'', ''X'')]) ex_world\<rparr>) \<and>
   analyze_dir ex_hasher ex_tree_bad (ex_app :: unit App) =
     Inl (OSError,
          ex_app\<lparr>delete_queue := clear_deletion_queue (delete_queue (ex_app :: unit App)),
                 world := commit ex_session (Hashes [(''pics/a.jpg'', ''X'')]) ex_world\<rparr>) \<and>
   analyze_dir ex_hasher ex_tree_odd (ex_app :: unit App) =
     Inl (UnicodeEncodeError,
          ex_app\<lparr>delete_queue := clear_deletion_queue (delete_queue (ex_app :: unit App)),
                 world := commit ex_session (Hashes [(''pics/b.jpg'', ''X'')]) ex_world\<rparr>)"
  using analyze_dir_result [of ex_hasher ex_tree_good "ex_app :: unit App"]
    analyze_dir_result [of ex_hasher ex_tree_bad "ex_app :: unit App"]
    analyze_dir_result [of ex_hasher ex_tree_odd "ex_app :: unit App"]
  by (simp add: sweep_ex_defs)

text \<open>
  C2 as stated fails: the second file of this tree cannot be read, and the sweep ends
  with its error instead of going on to the third, which is readable and supported and
  is not in the index.
\<close>

theorem analyze_dir_aborts_on_unreadable_file:
  "analyze_dir ex_hasher ex_tree_bad (ex_app :: unit App) =
     Inl (OSError,
          ex_app\<lparr>delete_queue := clear_deletion_queue (delete_queue (ex_app :: unit App)),
                 world := commit ex_session (Hashes [(''pics/a.jpg'', ''X'')]) ex_world\<rparr>)"
  by (simp add: analyze_dir_def reset_def connect_def commit_def Let_def
      ex_app_def ex_world_def ex_disk_def ex_tree_bad_def ex_hasher_def ex_session_def
      store_file_def hash_file_def path_join_def db_def
      is_supported_def extension_def lower_def lower_char_def rsplit1_def
      supported_extensions_def digest_def)

subsection \<open>DeletionQueue.persist and DeletionQueue.load\<close>

lemma strings_of_JString: "strings_of (map JString names) = Inr names"
  by (induction names) simp_all

lemma Duplicate_round_trip: "Duplicate_from_dict (Duplicate_to_dict d) = Inr d"
  by (simp add: Duplicate_to_dict_def strings_of_JString)

lemma from_dict_to_dict: "from_dict (to_dict entry) = Inr entry"
  by (simp add: to_dict_def Duplicate_round_trip)

lemma load_entries_to_dict:
  "load_entries (map to_dict es) ret = Inr (fold add_new es ret)"
  by (induction es arbitrary: ret) (simp_all add: from_dict_to_dict)

lemma entry_list_add_new_allocated:
  assumes "list_all (\<lambda>a. a < length (objects q)) (queue q)"
  shows "entry_list (add_new entry q) = entry_list q @ [entry]"
    and "list_all (\<lambda>a. a < length (objects (add_new entry q))) (queue (add_new entry q))"
    and "dq_session (add_new entry q) = dq_session q"
proof -
  have lt: "a < length (objects q)" if "a \<in> set (queue q)" for a
    using assms that by (simp add: list_all_iff)
  then have "(objects q @ [entry]) ! a = objects q ! a" if "a \<in> set (queue q)" for a
    using that by (simp add: nth_append)
  then show "entry_list (add_new entry q) = entry_list q @ [entry]"
    by (simp add: add_new_def entry_list_def Let_def)
  show "list_all (\<lambda>a. a < length (objects (add_new entry q))) (queue (add_new entry q))"
    using lt by (auto simp: add_new_def Let_def list_all_iff intro: less_SucI)
  show "dq_session (add_new entry q) = dq_session q"
    by (simp add: add_new_def Let_def)
qed

lemma entry_list_fold_add_new:
  "list_all (\<lambda>a. a < length (objects q)) (queue q) \<Longrightarrow>
   entry_list (fold add_new es q) = entry_list q @ es \<and>
   dq_session (fold add_new es q) = dq_session q"
proof (induction es arbitrary: q)
  case Nil
  then show ?case by simp
next
  case (Cons e es)
  from Cons.IH [OF entry_list_add_new_allocated(2) [OF Cons.prems, of e]]
  show ?case
    by (simp add: entry_list_add_new_allocated(1,3) [OF Cons.prems])
qed

text \<open>
  C4. Whatever the queue holds, \<open>persist\<close> followed by \<open>load\<close> on the same session
  returns a queue with the same entries (content hash, files and \<open>to_keep\<close>) in the
  same order. \<open>json.dump\<close> and \<open>json.load\<close> are taken to be inverse on the documents
  written.
\<close>

theorem persist_load_round_trip:
  assumes "\<forall>v. json_load (json_dump v) = Some v"
  shows "\<exists>q'. load json_load (dq_session q) (persist json_dump q w) = Inr q' \<and>
     entry_list q' = entry_list q \<and> dq_session q' = dq_session q"
proof -
  let ?s = "dq_session q"
  let ?q' = "fold add_new (entry_list q) (DeletionQueue_init ?s)"
  have "load json_load ?s (persist json_dump q w) = Inr ?q'"
    using assms by (simp add: load_def persist_def load_entries_to_dict)
  moreover have "entry_list ?q' = entry_list q \<and> dq_session ?q' = ?s"
    using entry_list_fold_add_new [of "DeletionQueue_init ?s" "entry_list q"]
    by (simp add: DeletionQueue_init_def entry_list_def)
  ultimately show ?thesis by blast
qed

lemma ex_queue_entries:
  "entry_list ex_queue =
     [\<lparr>duplicate = ex_group1, to_keep = ''pics/a.jpg''\<rparr>,
      \<lparr>duplicate = ex_group2, to_keep = ''pics/d.png''\<rparr>]"
  by (simp add: ex_queue_def add_def add_new_def get_by_hash_def DeletionQueue_init_def
      entry_list_def Let_def ex_group1_def ex_group2_def)

theorem persist_load_round_trip_witness:
  "map_sum id entry_list
     (load Some ex_session (persist (\<lambda>v. v) ex_queue (ex_world :: json world)))
   = Inr [\<lparr>duplicate = ex_group1, to_keep = ''pics/a.jpg''\<rparr>,
          \<lparr>duplicate = ex_group2, to_keep = ''pics/d.png''\<rparr>]"
proof -
  have s: "dq_session ex_queue = ex_session"
    by (simp add: ex_queue_def add_def add_new_def get_by_hash_def DeletionQueue_init_def
        Let_def ex_group1_def ex_group2_def)
  from persist_load_round_trip
    [where json_load = Some and json_dump = "\<lambda>v. v" and q = ex_queue
       and w = "ex_world :: json world"]
  show ?thesis
    by (auto simp: s ex_queue_entries)
qed

subsection \<open>Extension classification and Storage.store\_file\<close>

lemma extension_dotless: "CHR ''.'' \<notin> set filename \<Longrightarrow> extension filename = lower filename"
  by (simp add: extension_def rsplit1_def)

text \<open>
  A name that lowercases to an extension of the allow-list is made of ASCII letters,
  so sqlite3 can always bind it.
\<close>

lemma ascii_encodable: "list_all (\<lambda>c. \<not> digit7 c) s \<Longrightarrow> encodable s"
  by (induction s) simp_all

lemma lower_char_ascii:
  assumes "\<not> digit7 (lower_char c)"
  shows "\<not> digit7 c"
proof (cases "map_of (zip ''ABCDEFGHIJKLMNOPQRSTUVWXYZ'' ''abcdefghijklmnopqrstuvwxyz'') c")
  case None
  with assms show ?thesis by (simp add: lower_char_def)
next
  case (Some l)
  then have "(c, l) \<in> set (zip ''ABCDEFGHIJKLMNOPQRSTUVWXYZ'' ''abcdefghijklmnopqrstuvwxyz'')"
    by (rule map_of_SomeD)
  then have "c \<in> set ''ABCDEFGHIJKLMNOPQRSTUVWXYZ''"
    by (rule set_zip_leftD)
  then show ?thesis by auto
qed

lemma supported_name_ascii:
  assumes "lower s \<in> set supported_extensions"
  shows "list_all (\<lambda>c. \<not> digit7 c) s"
proof -
  from assms have "list_all (\<lambda>c. \<not> digit7 c) (lower s)"
    by (auto simp: supported_extensions_def)
  then have "\<forall>c \<in> set s. \<not> digit7 (lower_char c)"
    by (simp add: lower_def list_all_iff)
  then show ?thesis
    by (simp add: list_all_iff lower_char_ascii)
qed

text \<open>
  C10. For a filename without a dot, \<open>_is_supported\<close> compares the whole lowercased
  name with the allow-list: the name is supported exactly when it is one of the
  listed extensions in some spelling of capitals, and \<open>store_file\<close> then hashes the
  file and inserts its record as for any supported file.
\<close>

theorem dotless_name_compared_whole:
  assumes "CHR ''.'' \<notin> set filename"
  shows "(is_supported filename \<longleftrightarrow> lower filename \<in> set supported_extensions) \<and>
     (lower filename \<in> set supported_extensions \<and>
      databases w (db s) = Some (Hashes rows) \<and> \<not> unreadable (disk w) filename
      \<longrightarrow> store_file hs s filename w =
            Inr (commit s (Hashes (rows @ [(filename, digest hs (content (the (disk w filename))))])) w))"
proof -
  have 1: "is_supported filename \<longleftrightarrow> lower filename \<in> set supported_extensions"
    by (simp add: is_supported_def extension_dotless [OF assms])
  have 2: "store_file hs s filename w =
            Inr (commit s (Hashes (rows @ [(filename, digest hs (content (the (disk w filename))))])) w)"
    if h: "lower filename \<in> set supported_extensions \<and>
      databases w (db s) = Some (Hashes rows) \<and> \<not> unreadable (disk w) filename"
  proof -
    from h have low: "lower filename \<in> set supported_extensions" by simp
    have enc: "encodable filename"
      by (rule ascii_encodable) (rule supported_name_ascii [OF low])
    from low 1 have sup: "is_supported filename" by simp
    from h have tab: "databases w (db s) = Some (Hashes rows)" by simp
    from h enc have "\<not> sweep_fails (disk w) filename"
      by (simp add: sweep_fails_def)
    then show ?thesis
      using sup by (simp add: store_file_table [OF tab] index_rows_def)
  qed
  show ?thesis using 1 2 by blast
qed

theorem dotless_name_compared_whole_witness:
  "CHR ''.'' \<notin> set ''JPEG'' \<and> is_supported ''JPEG'' \<and>
   CHR ''.'' \<notin> set ''pics/gif'' \<and> \<not> is_supported ''pics/gif'' \<and>
   store_file ex_hasher ex_session ''JPEG'' (ex_indexed :: unit world) =
     Inr (commit ex_session (Hashes (ex_rows @ [(''JPEG'', ''Z'')])) ex_indexed)"
  using dotless_name_compared_whole
    [where filename = "''JPEG''" and w = "ex_indexed :: unit world" and s = ex_session
       and rows = ex_rows and hs = ex_hasher]
    dotless_name_compared_whole
    [where filename = "''pics/gif''" and w = "ex_indexed :: unit world" and s = ex_session
       and rows = ex_rows and hs = ex_hasher]
  by (simp add: ex_indexed_def ex_world_def ex_disk_def ex_hasher_def commit_def
      unreadable_def digest_def lower_def lower_char_def supported_extensions_def)

lemma index_rows_supported: "p \<in> fst ` set (index_rows hs d paths) \<Longrightarrow> is_supported p"
  by (auto simp: index_rows_def)

lemma records_commit: "records s (commit s (Hashes rows) w) = rows"
  by (simp add: records_def connect_def commit_def)

text \<open>
  C7. For a path whose extension (the text after its last dot, lowercased; the whole
  name when it has no dot) is not in the allow-list, \<open>store_file\<close> returns with the
  world as it was: nothing is inserted, and the file is not opened, so the call
  succeeds even when the file cannot be read or the index has no table. After a
  sweep the path is in no record of the index and in no duplicate group.
\<close>

theorem unsupported_never_indexed:
  assumes "extension filename \<notin> set supported_extensions"
    and "analyze_dir hs tree app = Inr app'"
    and "find_duplicates (session app') (world app') = Inr ds"
  shows "store_file hs s filename w = Inr w \<and>
     filename \<notin> fst ` set (records (session app') (world app')) \<and>
     (\<forall>d \<in> set ds. filename \<notin> set (files d))"
proof -
  have ns: "\<not> is_supported filename"
    using assms(1) by (simp add: is_supported_def)
  let ?rows = "index_rows hs (disk (world app)) (swept_paths tree)"
  from assms(2) have app':
    "app' = app\<lparr>delete_queue := clear_deletion_queue (delete_queue app),
                 world := commit (session app) (Hashes ?rows) (world app)\<rparr>"
    by (simp add: analyze_dir_eq split: option.splits)
  have rec: "records (session app') (world app') = ?rows"
    by (simp add: app' records_commit)
  have tab: "databases (world app') (db (session app')) = Some (Hashes ?rows)"
    by (simp add: app' commit_def)
  have 1: "store_file hs s filename w = Inr w"
    using ns by (simp add: store_file_def)
  have 2: "filename \<notin> fst ` set (records (session app') (world app'))"
    unfolding rec using ns index_rows_supported by blast
  have 3: "filename \<notin> set (files d)" if "d \<in> set ds" for d
  proof -
    from assms(3) that obtain h where
      "files d = sort (map fst (filter (\<lambda>r. snd r = h) ?rows))"
      by (auto simp: find_duplicates_table [OF tab])
    then have "set (files d) \<subseteq> fst ` set ?rows" by auto
    with ns index_rows_supported show ?thesis by blast
  qed
  show ?thesis using 1 2 3 by blast
qed

theorem unsupported_never_indexed_witness:
  "extension ''pics/c.txt'' \<notin> set supported_extensions \<and>
   analyze_dir ex_hasher ex_tree_good (ex_app :: unit App) =
     Inr (ex_app\<lparr>delete_queue := clear_deletion_queue (delete_queue (ex_app :: unit App)),
                 world := commit ex_session
                   (Hashes [(''pics/b.jpg'', ''X''), (''pics/a.jpg'', ''X'')]) ex_world\<rparr>) \<and>
   find_duplicates ex_session
       (commit ex_session (Hashes [(''pics/b.jpg'', ''X''), (''pics/a.jpg'', ''X'')])
          (ex_world :: unit world))
     = Inr [\<lparr>content_hash = ''X'', files = [''pics/a.jpg'', ''pics/b.jpg'']\<rparr>] \<and>
   store_file ex_hasher ex_session ''pics/c.txt'' (ex_world :: unit world) = Inr ex_world \<and>
   ''pics/c.txt'' \<notin> fst ` set (records ex_session
       (commit ex_session (Hashes [(''pics/b.jpg'', ''X''), (''pics/a.jpg'', ''X'')])
          (ex_world :: unit world))) \<and>
   ''pics/c.txt'' \<notin> set [''pics/a.jpg'', ''pics/b.jpg'']"
proof -
  let ?w = "commit ex_session (Hashes [(''pics/b.jpg'', ''X''), (''pics/a.jpg'', ''X'')])
          (ex_world :: unit world)"
  let ?app' = "(ex_app :: unit App)\<lparr>delete_queue := clear_deletion_queue (delete_queue (ex_app :: unit App)),
                 world := ?w\<rparr>"
  let ?ds = "[\<lparr>content_hash = ''X'', files = [''pics/a.jpg'', ''pics/b.jpg'']\<rparr>]"
  have e: "extension ''pics/c.txt'' \<notin> set supported_extensions"
    by (simp add: extension_def lower_def lower_char_def rsplit1_def supported_extensions_def)
  have a: "analyze_dir ex_hasher ex_tree_good (ex_app :: unit App) = Inr ?app'"
    by (simp add: analyze_dir_eq sweep_ex_defs)
  have f: "find_duplicates (session ?app') (world ?app') = Inr ?ds"
    by (simp add: ex_app_def commit_def find_duplicates_def
      connect_def duplicate_hashes_def find_all_with_hash_def)
  from unsupported_never_indexed [OF e a f, of ex_session "ex_world :: unit world"] e a f
  show ?thesis
    by (simp add: ex_app_def)
qed

subsection \<open>App.do\_delete\_queued\_files\<close>




















end
